theory Spec2Isabelle
  imports Main "HOL-Library.Word"
begin

unbundle bit_operations_syntax

text \<open>
  The package \<^verbatim>\<open>winternitz\<close> (file \<^verbatim>\<open>signature.go\<close>) implements a Winternitz one-time
  signature over Blake2b-256 with chains indexed by a byte. This theory embeds its three
  operations, GenerateKey, Sign and Verify, with the helper checksummedMessageHash, and
  proves what they compute. Arrays and slices of bytes are lists of 8-bit words; the
  loops are recursive functions, each with the counter type of its source loop.
\<close>

section \<open>Bytes, buffers and the external primitives\<close>

type_synonym byte = "8 word"
type_synonym bytes = "byte list"

text \<open>
  \<^verbatim>\<open>blake2b.Sum256\<close> is an external primitive: it takes a byte slice and returns a
  \<^verbatim>\<open>[32]byte\<close>. It is a parameter \<open>H\<close> of every definition below; the array type of
  its result is the predicate \<open>hash_ok\<close>.
\<close>

type_synonym hash = "bytes \<Rightarrow> bytes"

definition hash_ok :: "hash \<Rightarrow> bool" where
  "hash_ok H \<longleftrightarrow> (\<forall>m. length (H m) = 32)"

text \<open>
  The ChaCha20 key stream is the second external primitive: \<open>ks seed run k\<close> is byte
  \<open>k\<close> of the stream for the 32-byte key \<open>seed\<close> and the nonce built from \<open>run\<close>.
\<close>

type_synonym keystream = "bytes \<Rightarrow> 32 word \<Rightarrow> nat \<Rightarrow> byte"

text \<open>Go's \<^verbatim>\<open>copy(dst, src)\<close>: the first \<open>min (len dst) (len src)\<close> bytes of \<open>dst\<close> are
  overwritten, the length of \<open>dst\<close> stays.\<close>

definition copy_bytes :: "bytes \<Rightarrow> bytes \<Rightarrow> bytes" where
  "copy_bytes dst src = take (length dst) src @ drop (length src) dst"

text \<open>The slice expression \<^verbatim>\<open>y[lo:hi]\<close>, read.\<close>

definition slice :: "bytes \<Rightarrow> nat \<Rightarrow> nat \<Rightarrow> bytes" where
  "slice y lo hi = take (hi - lo) (drop lo y)"

text \<open>\<^verbatim>\<open>copy(y[lo:hi], src)\<close>: the slice shares the array \<open>y\<close>, so the array changes.\<close>

definition copy_slice :: "bytes \<Rightarrow> nat \<Rightarrow> nat \<Rightarrow> bytes \<Rightarrow> bytes" where
  "copy_slice y lo hi src = take lo y @ copy_bytes (slice y lo hi) src @ drop hi y"

text \<open>\<^verbatim>\<open>var h [32]byte\<close>.\<close>

definition zero32 :: bytes where
  "zero32 = replicate 32 0"

subsection \<open>The seeded reader\<close>

text \<open>
  \<^verbatim>\<open>chacha20prng.New(seed, run)\<close> starts a key stream at position 0, and \<^verbatim>\<open>Read(b)\<close>
  overwrites \<open>b\<close> with the next \<open>len b\<close> bytes of the stream (the test file's \<^verbatim>\<open>prng\<close>
  type does the same: zero \<open>b\<close>, then \<^verbatim>\<open>XORKeyStream(b, b)\<close>, return \<^verbatim>\<open>len(b), nil\<close>).
\<close>

record prng =
  prng_seed :: bytes
  prng_run :: "32 word"
  prng_pos :: nat

definition chacha20prng_New :: "bytes \<Rightarrow> 32 word \<Rightarrow> prng" where
  "chacha20prng_New seed run = \<lparr>prng_seed = seed, prng_run = run, prng_pos = 0\<rparr>"

definition prng_Read :: "keystream \<Rightarrow> prng \<Rightarrow> bytes \<Rightarrow> bytes \<times> prng" where
  "prng_Read ks p b =
     (copy_bytes b (map (\<lambda>k. ks (prng_seed p) (prng_run p) (prng_pos p + k)) [0..<length b]),
      p\<lparr>prng_pos := prng_pos p + length b\<rparr>)"

section \<open>The hash chains\<close>

text \<open>GenerateKey, lines 77-79: \<^verbatim>\<open>for i := 0; i < 256; i++ { h = blake2b.Sum256(h[:]) }\<close>.\<close>

function GenerateKey_hashes :: "hash \<Rightarrow> int \<Rightarrow> bytes \<Rightarrow> bytes" where
  "GenerateKey_hashes H i h = (if i < 256 then GenerateKey_hashes H (i + 1) (H h) else h)"
  by pat_completeness auto
termination
  by (relation "measure (\<lambda>(H, i, h). nat (256 - i))") auto

declare GenerateKey_hashes.simps [simp del]

text \<open>Sign, lines 130-132: \<^verbatim>\<open>for j := byte(0); j < b; j++ { h = blake2b.Sum256(h[:]) }\<close>,
  with \<open>j\<close> a byte.\<close>

function Sign_hashes :: "hash \<Rightarrow> byte \<Rightarrow> byte \<Rightarrow> bytes \<Rightarrow> bytes" where
  "Sign_hashes H b j h = (if j < b then Sign_hashes H b (j + 1) (H h) else h)"
  by pat_completeness auto
termination
proof (relation "measure (\<lambda>(H, b, j, h). unat b - unat j)")
  show "wf (measure (\<lambda>(H, b, j, h). unat b - unat j))"
    by simp
next
  fix H :: hash and b j :: byte and h :: bytes
  assume lt: "j < b"
  then have "unat j < unat b"
    by (simp add: word_less_nat_alt)
  moreover have "unat b < 256"
    using unsigned_less [of b] by simp
  ultimately have "unat (j + 1) = unat j + 1"
    by (simp add: unat_word_ariths)
  with \<open>unat j < unat b\<close>
  show "((H, b, j + 1, H h), (H, b, j, h)) \<in> measure (\<lambda>(H, b, j, h). unat b - unat j)"
    by simp
qed

declare Sign_hashes.simps [simp del]

text \<open>Verify, lines 149-151: \<^verbatim>\<open>for j := 255 - int(b); j >= 0; j-- { h = blake2b.Sum256(h[:]) }\<close>.\<close>

function Verify_hashes :: "hash \<Rightarrow> int \<Rightarrow> bytes \<Rightarrow> bytes" where
  "Verify_hashes H j h = (if j \<ge> 0 then Verify_hashes H (j - 1) (H h) else h)"
  by pat_completeness auto
termination
  by (relation "measure (\<lambda>(H, j, h). nat (j + 1))") auto

declare Verify_hashes.simps [simp del]

text \<open>GenerateKey, lines 74-81: the loop over the 32-byte hashes of the list \<open>y\<close>, each
  hashed in place.\<close>

function GenerateKey_lists :: "hash \<Rightarrow> nat \<Rightarrow> bytes \<Rightarrow> bytes" where
  "GenerateKey_lists H off y =
     (if off < length y then
        (let h = copy_bytes zero32 (slice y off (off + 32));
             h = GenerateKey_hashes H 0 h
         in GenerateKey_lists H (off + 32) (copy_slice y off (off + 32) h))
      else y)"
  by pat_completeness auto
termination
  by (relation "measure (\<lambda>(H, off, y). length y - off)")
     (auto simp: copy_slice_def copy_bytes_def slice_def min_def)

declare GenerateKey_lists.simps [simp del]

text \<open>Sign, lines 126-134: \<^verbatim>\<open>for i, b := range messageHash\<close>.\<close>

fun Sign_lists :: "hash \<Rightarrow> nat \<Rightarrow> bytes \<Rightarrow> bytes \<Rightarrow> bytes" where
  "Sign_lists H i [] y = y"
| "Sign_lists H i (b # bs) y =
     (let bytesig = slice y (i * 32) (i * 32 + 32);
          h = copy_bytes zero32 bytesig;
          h = Sign_hashes H b 0 h
      in Sign_lists H (i + 1) bs (copy_slice y (i * 32) (i * 32 + 32) h))"

text \<open>Verify, lines 145-153.\<close>

fun Verify_lists :: "hash \<Rightarrow> nat \<Rightarrow> bytes \<Rightarrow> bytes \<Rightarrow> bytes" where
  "Verify_lists H i [] y = y"
| "Verify_lists H i (b # bs) y =
     (let bytepub = slice y (i * 32) (i * 32 + 32);
          h = copy_bytes zero32 bytepub;
          h = Verify_hashes H (255 - uint b) h
      in Verify_lists H (i + 1) bs (copy_slice y (i * 32) (i * 32 + 32) h))"

section \<open>The checksummed message hash\<close>

text \<open>Lines 107-110: \<^verbatim>\<open>var cksum uint16; for _, b := range messageHash { cksum += 255 - uint16(b) }\<close>.\<close>

fun cksum_loop :: "bytes \<Rightarrow> 16 word \<Rightarrow> 16 word" where
  "cksum_loop [] cksum = cksum"
| "cksum_loop (b # bs) cksum = cksum_loop bs (cksum + (255 - ucast b))"

text \<open>\<^verbatim>\<open>binary.LittleEndian.PutUint16(b, v)\<close>: \<^verbatim>\<open>b[0] = byte(v); b[1] = byte(v >> 8)\<close>.\<close>

definition PutUint16 :: "16 word \<Rightarrow> bytes" where
  "PutUint16 v = [ucast v, ucast (drop_bit 8 v)]"

definition checksummedMessageHash :: "hash \<Rightarrow> bytes \<Rightarrow> bytes" where
  "checksummedMessageHash H m =
     (let messageHashChecksum = replicate 34 0;
          messageHash = H m;
          messageHashChecksum = copy_slice messageHashChecksum 0 32 messageHash;
          cksum = cksum_loop messageHash 0
      in copy_slice messageHashChecksum 32 34 (PutUint16 cksum))"

section \<open>GenerateKey, Sign, Verify\<close>

text \<open>
  An \<^verbatim>\<open>io.Reader\<close>: \<open>rd r n\<close> is one call of \<^verbatim>\<open>Read\<close> in state \<open>r\<close> on a buffer of
  \<open>n\<close> bytes. It gives the bytes the call stored at the front of the buffer, the count
  and the error it returned, and the reader's next state.
\<close>

type_synonym ('r, 'e) reader = "'r \<Rightarrow> nat \<Rightarrow> bytes \<times> int \<times> 'e option \<times> 'r"

text \<open>What GenerateKey returns (\<open>None\<close> is a nil pointer or a nil error), with the state
  it leaves the reader in.\<close>

record ('r, 'e) generated =
  gk_pk :: "bytes option"
  gk_sk :: "bytes option"
  gk_err :: "'e option"
  gk_rand :: 'r

text \<open>Lines 72-73: the 34 seeds of the first hash list.\<close>

definition GenerateKey_seeds :: "keystream \<Rightarrow> bytes \<Rightarrow> bytes" where
  "GenerateKey_seeds ks sk =
     fst (prng_Read ks (chacha20prng_New sk 0) (replicate (34 * 32) 0))"

definition GenerateKey :: "hash \<Rightarrow> keystream \<Rightarrow> ('r, 'e) reader \<Rightarrow> 'r \<Rightarrow> ('r, 'e) generated" where
  "GenerateKey H ks rd r =
     (let sk = zero32;
          (data, n, err, r') = rd r (length sk);
          sk = copy_bytes sk data
      in if err \<noteq> None then \<lparr>gk_pk = None, gk_sk = Some sk, gk_err = err, gk_rand = r'\<rparr>
         else
           (let y = GenerateKey_seeds ks sk;
                y = GenerateKey_lists H 0 y;
                fingerprint = H y;
                pk = copy_bytes zero32 fingerprint
            in \<lparr>gk_pk = Some pk, gk_sk = Some sk, gk_err = err, gk_rand = r'\<rparr>))"

text \<open>Lines 124-125.\<close>

definition Sign_seeds :: "keystream \<Rightarrow> bytes \<Rightarrow> bytes \<Rightarrow> bytes" where
  "Sign_seeds ks sk messageHash =
     fst (prng_Read ks (chacha20prng_New sk 0) (replicate (length messageHash * 32) 0))"

definition Sign :: "hash \<Rightarrow> keystream \<Rightarrow> bytes \<Rightarrow> bytes \<Rightarrow> bytes" where
  "Sign H ks sk message =
     (let messageHash = checksummedMessageHash H message;
          y = Sign_seeds ks sk messageHash
      in Sign_lists H 0 messageHash y)"

definition Verify :: "hash \<Rightarrow> bytes \<Rightarrow> bytes \<Rightarrow> bytes \<Rightarrow> bool" where
  "Verify H pk message sig =
     (let messageHash = checksummedMessageHash H message;
          y = sig;
          y = Verify_lists H 0 messageHash y;
          fingerprint = H y
      in pk = fingerprint)"

section \<open>Sign and Verify on a store\<close>

text \<open>
  Sign and Verify receive pointers and a slice, and write through slices of the local
  array \<open>y\<close>. To say what they leave unchanged, the arrays live in a store: an address
  is an index into the list of arrays, a slice is an array with its bounds, and a new
  array gets the next free address. The functions \<open>H\<close> and \<open>ks\<close> stand for calls that
  read their arguments and write nothing.
\<close>

type_synonym heap = "bytes list"

record slice_ref =
  sl_obj :: nat
  sl_lo :: nat
  sl_hi :: nat

definition sl_load :: "heap \<Rightarrow> slice_ref \<Rightarrow> bytes" where
  "sl_load s r = slice (s ! sl_obj r) (sl_lo r) (sl_hi r)"

text \<open>\<^verbatim>\<open>copy(r, src)\<close> for a slice \<open>r\<close>: the array behind the slice changes.\<close>

definition sl_copy :: "heap \<Rightarrow> slice_ref \<Rightarrow> bytes \<Rightarrow> heap" where
  "sl_copy s r src = s[sl_obj r := copy_slice (s ! sl_obj r) (sl_lo r) (sl_hi r) src]"

definition new_array :: "heap \<Rightarrow> bytes \<Rightarrow> nat \<times> heap" where
  "new_array s init = (length s, s @ [init])"

fun Sign_lists_mem :: "hash \<Rightarrow> nat \<Rightarrow> nat \<Rightarrow> bytes \<Rightarrow> heap \<Rightarrow> heap" where
  "Sign_lists_mem H y i [] s = s"
| "Sign_lists_mem H y i (b # bs) s =
     (let bytesig = \<lparr>sl_obj = y, sl_lo = i * 32, sl_hi = i * 32 + 32\<rparr>;
          h = copy_bytes zero32 (sl_load s bytesig);
          h = Sign_hashes H b 0 h
      in Sign_lists_mem H y (i + 1) bs (sl_copy s bytesig h))"

text \<open>Sign, lines 121-137. The array \<open>y\<close> is new; its address is the result.\<close>

definition Sign_mem :: "hash \<Rightarrow> keystream \<Rightarrow> nat \<Rightarrow> slice_ref \<Rightarrow> heap \<Rightarrow> nat \<times> heap" where
  "Sign_mem H ks sk message s =
     (let messageHash = checksummedMessageHash H (sl_load s message);
          (y, s) = new_array s (replicate (length messageHash * 32) 0);
          whole = \<lparr>sl_obj = y, sl_lo = 0, sl_hi = length (s ! y)\<rparr>;
          s = sl_copy s whole
                (fst (prng_Read ks (chacha20prng_New (s ! sk) 0) (sl_load s whole)));
          s = Sign_lists_mem H y 0 messageHash s
      in (y, s))"

fun Verify_lists_mem :: "hash \<Rightarrow> nat \<Rightarrow> nat \<Rightarrow> bytes \<Rightarrow> heap \<Rightarrow> heap" where
  "Verify_lists_mem H y i [] s = s"
| "Verify_lists_mem H y i (b # bs) s =
     (let bytepub = \<lparr>sl_obj = y, sl_lo = i * 32, sl_hi = i * 32 + 32\<rparr>;
          h = copy_bytes zero32 (sl_load s bytepub);
          h = Verify_hashes H (255 - uint b) h
      in Verify_lists_mem H y (i + 1) bs (sl_copy s bytepub h))"

text \<open>Verify, lines 141-160. \<^verbatim>\<open>var y [...]byte = *sig\<close> is a new array holding a copy of
  the signature.\<close>

definition Verify_mem :: "hash \<Rightarrow> nat \<Rightarrow> slice_ref \<Rightarrow> nat \<Rightarrow> heap \<Rightarrow> bool \<times> heap" where
  "Verify_mem H pk message sig s =
     (let messageHash = checksummedMessageHash H (sl_load s message);
          (y, s) = new_array s (s ! sig);
          s = Verify_lists_mem H y 0 messageHash s;
          fingerprint = H (s ! y)
      in (s ! pk = fingerprint, s))"

section \<open>What the documentation says of the chain lengths\<close>

text \<open>
  Two definitions that follow the words of the specification and of the comments in
  the source ("each 32-byte hash is hashed 255 times to end at the public key portion",
  "the public key hash list index 255"), to be compared with the code above. The first
  is the public key of a list of 34 seeds, each hashed 255 times; the second is the
  verification that hashes element \<open>i\<close> of the signature \<open>255 - vector[i]\<close> times.
\<close>

definition PublicKey_spec :: "hash \<Rightarrow> bytes \<Rightarrow> bytes" where
  "PublicKey_spec H seeds =
     H (concat (map (\<lambda>i. (H ^^ 255) (slice seeds (i * 32) (i * 32 + 32))) [0..<34]))"

definition Verify_spec :: "hash \<Rightarrow> bytes \<Rightarrow> bytes \<Rightarrow> bytes \<Rightarrow> bool" where
  "Verify_spec H pk message sig =
     (let vector = checksummedMessageHash H message
      in pk = H (concat (map (\<lambda>i. (H ^^ (255 - unat (vector ! i)))
                                  (slice sig (i * 32) (i * 32 + 32))) [0..<34])))"

section \<open>Concrete readers and stand-ins for the primitives\<close>

text \<open>The readers of the test file: the seeded stream itself, and \<^verbatim>\<open>nopReader\<close>, which
  reports a full read and writes nothing.\<close>

definition prng_reader :: "keystream \<Rightarrow> (prng, 'e) reader" where
  "prng_reader ks p n =
     (let (b, p') = prng_Read ks p (replicate n 0) in (b, int (length b), None, p'))"

definition nopReader :: "(unit, 'e) reader" where
  "nopReader r n = ([], int n, None, r)"

text \<open>A reader over a finite byte string, as \<^verbatim>\<open>bytes.Reader\<close> is: it hands out what is
  left, fewer bytes than asked for when it has fewer, and \<^verbatim>\<open>io.EOF\<close> once it is empty.\<close>

datatype io_error = EOF

definition bytes_reader :: "(bytes, io_error) reader" where
  "bytes_reader r n =
     (if r = [] then ([], 0, Some EOF, r)
      else (take n r, int (min n (length r)), None, drop n r))"

text \<open>
  Closed instances need a concrete hash and key stream. These two are stand-ins with
  the types of the real primitives, simple enough to evaluate: the hash adds one to
  each of the first 32 bytes of its (zero-padded) input.
\<close>

definition sample_hash :: hash where
  "sample_hash m = map (\<lambda>b. b + 1) (take 32 (m @ replicate 32 0))"

definition sample_keystream :: keystream where
  "sample_keystream seed run k = sum_list seed + ucast run + of_nat k"

text \<open>The variables of the test file: the all-zero seed, the generated key pair, the
  message.\<close>

definition test_message :: bytes where
  "test_message = [109, 101, 115, 115, 97, 103, 101]"

definition test_keys :: "(prng, io_error) generated" where
  "test_keys = GenerateKey sample_hash sample_keystream (prng_reader sample_keystream)
                 (chacha20prng_New (replicate 32 0) 0)"

section \<open>Buffers\<close>

lemma length_copy_bytes [simp]: "length (copy_bytes dst src) = length dst"
  by (simp add: copy_bytes_def min_def)

lemma copy_bytes_full: "length src = length dst \<Longrightarrow> copy_bytes dst src = src"
  by (simp add: copy_bytes_def)

lemma length_slice: "hi \<le> length y \<Longrightarrow> length (slice y lo hi) = hi - lo"
  by (auto simp: slice_def)

lemma nth_slice: "hi \<le> length y \<Longrightarrow> j < hi - lo \<Longrightarrow> slice y lo hi ! j = y ! (lo + j)"
  by (simp add: slice_def)

lemma length_copy_slice: "lo \<le> hi \<Longrightarrow> length (copy_slice y lo hi src) = length y"
  by (simp add: copy_slice_def slice_def min_def)

lemma copy_slice_full:
  "lo \<le> hi \<Longrightarrow> hi \<le> length y \<Longrightarrow> length src = hi - lo \<Longrightarrow>
   copy_slice y lo hi src = take lo y @ src @ drop hi y"
  by (simp add: copy_slice_def copy_bytes_full length_slice)

lemma nth_copy_slice:
  assumes "lo \<le> hi" "hi \<le> length y" "length src = hi - lo" "j < length y"
  shows "copy_slice y lo hi src ! j = (if lo \<le> j \<and> j < hi then src ! (j - lo) else y ! j)"
proof -
  have "copy_slice y lo hi src = take lo y @ src @ drop hi y"
    using assms by (simp add: copy_slice_full)
  then show ?thesis
    using assms by (auto simp: nth_append min_def)
qed

lemma block_length:
  "length y = 32 * n \<Longrightarrow> i < n \<Longrightarrow> length (slice y (i * 32) (i * 32 + 32)) = 32"
  by (simp add: length_slice)

lemma block_read:
  "length y = 32 * n \<Longrightarrow> i < n \<Longrightarrow>
   copy_bytes zero32 (slice y (i * 32) (i * 32 + 32)) = slice y (i * 32) (i * 32 + 32)"
  by (rule copy_bytes_full) (simp add: length_slice zero32_def)

lemma block_write:
  assumes "length y = 32 * n" "i < n" "k < n" "length h = 32"
  shows "slice (copy_slice y (i * 32) (i * 32 + 32) h) (k * 32) (k * 32 + 32) =
         (if k = i then h else slice y (k * 32) (k * 32 + 32))"
proof (rule nth_equalityI)
  let ?y' = "copy_slice y (i * 32) (i * 32 + 32) h"
  have len: "length ?y' = 32 * n"
    using assms by (simp add: length_copy_slice)
  have hi: "k * 32 + 32 \<le> 32 * n" "i * 32 + 32 \<le> 32 * n"
    using assms by simp_all
  show "length (slice ?y' (k * 32) (k * 32 + 32)) =
        length (if k = i then h else slice y (k * 32) (k * 32 + 32))"
    using assms len hi by (simp add: length_slice)
  fix j assume "j < length (slice ?y' (k * 32) (k * 32 + 32))"
  then have j: "j < 32"
    using len hi by (simp add: length_slice)
  have "slice ?y' (k * 32) (k * 32 + 32) ! j = ?y' ! (k * 32 + j)"
    using len hi j by (simp add: nth_slice)
  also have "\<dots> = (if i * 32 \<le> k * 32 + j \<and> k * 32 + j < i * 32 + 32
                    then h ! (k * 32 + j - i * 32) else y ! (k * 32 + j))"
    using assms hi j by (intro nth_copy_slice) simp_all
  also have "\<dots> = (if k = i then h else slice y (k * 32) (k * 32 + 32)) ! j"
  proof (cases "k = i")
    case True
    then show ?thesis using j by simp
  next
    case False
    then have "\<not> (i * 32 \<le> k * 32 + j \<and> k * 32 + j < i * 32 + 32)"
      using j by arith
    then have "(if i * 32 \<le> k * 32 + j \<and> k * 32 + j < i * 32 + 32
                then h ! (k * 32 + j - i * 32) else y ! (k * 32 + j)) = y ! (k * 32 + j)"
      by (rule if_not_P)
    moreover have "slice y (k * 32) (k * 32 + 32) ! j = y ! (k * 32 + j)"
      using assms hi j by (simp add: nth_slice)
    ultimately show ?thesis
      using False by simp
  qed
  finally show "slice ?y' (k * 32) (k * 32 + 32) ! j =
                (if k = i then h else slice y (k * 32) (k * 32 + 32)) ! j" .
qed

lemma blocks_eqI:
  assumes "length a = 32 * n" "length b = 32 * n"
    and "\<And>k. k < n \<Longrightarrow> slice a (k * 32) (k * 32 + 32) = slice b (k * 32) (k * 32 + 32)"
  shows "a = b"
proof (rule nth_equalityI)
  show "length a = length b" using assms by simp
  fix j assume "j < length a"
  then have j: "j < 32 * n" using assms by simp
  then have k: "j div 32 < n" by simp
  have hi: "j div 32 * 32 + 32 \<le> 32 * n" using k by simp
  have "a ! j = slice a (j div 32 * 32) (j div 32 * 32 + 32) ! (j mod 32)"
    using assms(1) hi by (simp add: nth_slice)
  also have "\<dots> = slice b (j div 32 * 32) (j div 32 * 32 + 32) ! (j mod 32)"
    using assms(3) [OF k] by simp
  also have "\<dots> = b ! j"
    using assms(2) hi by (simp add: nth_slice)
  finally show "a ! j = b ! j" .
qed

section \<open>The loops as iterated hashing\<close>

lemma GenerateKey_hashes_funpow: "GenerateKey_hashes H i h = (H ^^ nat (256 - i)) h"
proof (induction H i h rule: GenerateKey_hashes.induct)
  case (1 H i h)
  show ?case
  proof (cases "i < 256")
    case True
    then have "nat (256 - i) = Suc (nat (256 - (i + 1)))" by simp
    with True "1" show ?thesis
      by (subst GenerateKey_hashes.simps) (simp add: funpow_swap1)
  next
    case False
    then show ?thesis by (subst GenerateKey_hashes.simps) simp
  qed
qed

lemma Verify_hashes_funpow: "Verify_hashes H j h = (H ^^ nat (j + 1)) h"
proof (induction H j h rule: Verify_hashes.induct)
  case (1 H j h)
  show ?case
  proof (cases "j \<ge> 0")
    case True
    then have "nat (j + 1) = Suc (nat (j - 1 + 1))" by simp
    with True "1" show ?thesis
      by (subst Verify_hashes.simps) (simp add: funpow_swap1)
  next
    case False
    then show ?thesis by (subst Verify_hashes.simps) simp
  qed
qed

lemma Sign_hashes_funpow: "Sign_hashes H b j h = (H ^^ (unat b - unat j)) h"
proof (induction H b j h rule: Sign_hashes.induct)
  case (1 H b j h)
  show ?case
  proof (cases "j < b")
    case True
    then have lt: "unat j < unat b"
      by (simp add: word_less_nat_alt)
    moreover have "unat b < 256"
      using unsigned_less [of b] by simp
    ultimately have "unat (j + 1) = unat j + 1"
      by (simp add: unat_word_ariths)
    with lt have "unat b - unat j = Suc (unat b - unat (j + 1))" by simp
    with True "1" show ?thesis
      by (subst Sign_hashes.simps) (simp add: funpow_swap1)
  next
    case False
    then have "unat b - unat j = 0"
      by (simp add: word_less_nat_alt)
    with False show ?thesis by (subst Sign_hashes.simps) simp
  qed
qed

lemma length_funpow_hash:
  "hash_ok H \<Longrightarrow> length h = 32 \<Longrightarrow> length ((H ^^ n) h) = 32"
  by (cases n) (simp_all add: hash_ok_def)

lemma Sign_lists_blocks:
  assumes H: "hash_ok H"
  shows "length y = 32 * n \<Longrightarrow> i + length bs = n \<Longrightarrow>
         length (Sign_lists H i bs y) = 32 * n \<and>
         (\<forall>k<n. slice (Sign_lists H i bs y) (k * 32) (k * 32 + 32) =
            (if k < i then slice y (k * 32) (k * 32 + 32)
             else (H ^^ unat (bs ! (k - i))) (slice y (k * 32) (k * 32 + 32))))"
proof (induction bs arbitrary: i y)
  case Nil
  then show ?case by simp
next
  case (Cons b bs)
  let ?c = "slice y (i * 32) (i * 32 + 32)"
  let ?h = "(H ^^ unat b) ?c"
  let ?y1 = "copy_slice y (i * 32) (i * 32 + 32) ?h"
  have i: "i < n" using Cons.prems by simp
  have c: "length ?c = 32"
    using Cons.prems i by (simp add: block_length)
  have h: "length ?h = 32"
    using H c by (rule length_funpow_hash)
  have step: "Sign_lists H i (b # bs) y = Sign_lists H (i + 1) bs ?y1"
    using Cons.prems i by (simp add: Let_def block_read Sign_hashes_funpow)
  have len1: "length ?y1 = 32 * n"
    using Cons.prems by (simp add: length_copy_slice)
  have blk: "slice ?y1 (k * 32) (k * 32 + 32) = (if k = i then ?h else slice y (k * 32) (k * 32 + 32))"
    if "k < n" for k
    using Cons.prems(1) i that h by (rule block_write)
  have IH: "length (Sign_lists H (i + 1) bs ?y1) = 32 * n \<and>
        (\<forall>k<n. slice (Sign_lists H (i + 1) bs ?y1) (k * 32) (k * 32 + 32) =
            (if k < i + 1 then slice ?y1 (k * 32) (k * 32 + 32)
             else (H ^^ unat (bs ! (k - (i + 1)))) (slice ?y1 (k * 32) (k * 32 + 32))))"
    using Cons.prems len1 by (intro Cons.IH) simp_all
  show ?case
  proof (intro conjI allI impI)
    show "length (Sign_lists H i (b # bs) y) = 32 * n"
      using IH step by simp
    fix k assume k: "k < n"
    consider "k < i" | "k = i" | "i < k" by arith
    then show "slice (Sign_lists H i (b # bs) y) (k * 32) (k * 32 + 32) =
          (if k < i then slice y (k * 32) (k * 32 + 32)
           else (H ^^ unat ((b # bs) ! (k - i))) (slice y (k * 32) (k * 32 + 32)))"
    proof cases
      case 1
      then show ?thesis using IH step k blk [OF k] by simp
    next
      case 2
      then show ?thesis using IH step k blk [OF k] by simp
    next
      case 3
      then have "(b # bs) ! (k - i) = bs ! (k - (i + 1))" by (simp add: nth_Cons')
      with 3 show ?thesis using IH step k blk [OF k] by simp
    qed
  qed
qed

lemma Verify_lists_blocks:
  assumes H: "hash_ok H"
  shows "length y = 32 * n \<Longrightarrow> i + length bs = n \<Longrightarrow>
         length (Verify_lists H i bs y) = 32 * n \<and>
         (\<forall>k<n. slice (Verify_lists H i bs y) (k * 32) (k * 32 + 32) =
            (if k < i then slice y (k * 32) (k * 32 + 32)
             else (H ^^ (256 - unat (bs ! (k - i)))) (slice y (k * 32) (k * 32 + 32))))"
proof (induction bs arbitrary: i y)
  case Nil
  then show ?case by simp
next
  case (Cons b bs)
  let ?c = "slice y (i * 32) (i * 32 + 32)"
  let ?h = "(H ^^ (256 - unat b)) ?c"
  let ?y1 = "copy_slice y (i * 32) (i * 32 + 32) ?h"
  have i: "i < n" using Cons.prems by simp
  have c: "length ?c = 32"
    using Cons.prems i by (simp add: block_length)
  have h: "length ?h = 32"
    using H c by (rule length_funpow_hash)
  have "unat b < 256"
    using unsigned_less [of b] by simp
  then have cnt: "nat (255 - uint b + 1) = 256 - unat b"
    by (simp add: nat_diff_distrib' flip: nat_int)
  have step: "Verify_lists H i (b # bs) y = Verify_lists H (i + 1) bs ?y1"
    using Cons.prems i cnt by (simp add: Let_def block_read Verify_hashes_funpow)
  have len1: "length ?y1 = 32 * n"
    using Cons.prems by (simp add: length_copy_slice)
  have blk: "slice ?y1 (k * 32) (k * 32 + 32) = (if k = i then ?h else slice y (k * 32) (k * 32 + 32))"
    if "k < n" for k
    using Cons.prems(1) i that h by (rule block_write)
  have IH: "length (Verify_lists H (i + 1) bs ?y1) = 32 * n \<and>
        (\<forall>k<n. slice (Verify_lists H (i + 1) bs ?y1) (k * 32) (k * 32 + 32) =
            (if k < i + 1 then slice ?y1 (k * 32) (k * 32 + 32)
             else (H ^^ (256 - unat (bs ! (k - (i + 1))))) (slice ?y1 (k * 32) (k * 32 + 32))))"
    using Cons.prems len1 by (intro Cons.IH) simp_all
  show ?case
  proof (intro conjI allI impI)
    show "length (Verify_lists H i (b # bs) y) = 32 * n"
      using IH step by simp
    fix k assume k: "k < n"
    consider "k < i" | "k = i" | "i < k" by arith
    then show "slice (Verify_lists H i (b # bs) y) (k * 32) (k * 32 + 32) =
          (if k < i then slice y (k * 32) (k * 32 + 32)
           else (H ^^ (256 - unat ((b # bs) ! (k - i)))) (slice y (k * 32) (k * 32 + 32)))"
    proof cases
      case 1
      then show ?thesis using IH step k blk [OF k] by simp
    next
      case 2
      then show ?thesis using IH step k blk [OF k] by simp
    next
      case 3
      then have "(b # bs) ! (k - i) = bs ! (k - (i + 1))" by (simp add: nth_Cons')
      with 3 show ?thesis using IH step k blk [OF k] by simp
    qed
  qed
qed

lemma GenerateKey_lists_blocks:
  shows "hash_ok H \<Longrightarrow> length y = 32 * n \<Longrightarrow> off = 32 * i \<Longrightarrow> i \<le> n \<Longrightarrow>
         length (GenerateKey_lists H off y) = 32 * n \<and>
         (\<forall>k<n. slice (GenerateKey_lists H off y) (k * 32) (k * 32 + 32) =
            (if k < i then slice y (k * 32) (k * 32 + 32)
             else (H ^^ 256) (slice y (k * 32) (k * 32 + 32))))"
proof (induction H off y arbitrary: i rule: GenerateKey_lists.induct)
  case (1 H off y)
  show ?case
  proof (cases "off < length y")
    case False
    then have "i = n" using "1.prems" by simp
    then show ?thesis
      using False "1.prems" by (subst (1 2) GenerateKey_lists.simps) simp
  next
    case True
    let ?c = "slice y (i * 32) (i * 32 + 32)"
    let ?h = "(H ^^ 256) ?c"
    let ?y1 = "copy_slice y (i * 32) (i * 32 + 32) ?h"
    have i: "i < n" using True "1.prems" by simp
    have c: "length ?c = 32"
      using "1.prems" i by (simp add: block_length)
    have h: "length ?h = 32"
      using "1.prems"(1) c by (rule length_funpow_hash)
    have rd: "copy_bytes zero32 (slice y off (off + 32)) = ?c"
      using "1.prems" i block_read [of y n i] by (simp add: mult.commute)
    have gh: "GenerateKey_hashes H 0 ?c = ?h"
      by (simp add: GenerateKey_hashes_funpow)
    have step: "GenerateKey_lists H off y = GenerateKey_lists H (off + 32) ?y1"
      using True "1.prems"(3) rd gh
      by (subst GenerateKey_lists.simps) (simp add: Let_def mult.commute)
    have len1: "length ?y1 = 32 * n"
      using "1.prems" by (simp add: length_copy_slice)
    have blk: "slice ?y1 (k * 32) (k * 32 + 32) = (if k = i then ?h else slice y (k * 32) (k * 32 + 32))"
      if "k < n" for k
      using "1.prems"(2) i that h by (rule block_write)
    have y1: "copy_slice y off (off + 32) (GenerateKey_hashes H 0 (copy_bytes zero32 (slice y off (off + 32)))) = ?y1"
      using rd gh "1.prems"(3) by (simp add: mult.commute)
    have IH: "length (GenerateKey_lists H (off + 32) ?y1) = 32 * n \<and>
        (\<forall>k<n. slice (GenerateKey_lists H (off + 32) ?y1) (k * 32) (k * 32 + 32) =
            (if k < i + 1 then slice ?y1 (k * 32) (k * 32 + 32)
             else (H ^^ 256) (slice ?y1 (k * 32) (k * 32 + 32))))"
      using "1.IH" [OF True refl refl, unfolded y1, of "i + 1"] len1 "1.prems" i by simp
    show ?thesis
    proof (intro conjI allI impI)
      show "length (GenerateKey_lists H off y) = 32 * n"
        using IH step by simp
      fix k assume k: "k < n"
      consider "k < i" | "k = i" | "i < k" by arith
      then show "slice (GenerateKey_lists H off y) (k * 32) (k * 32 + 32) =
          (if k < i then slice y (k * 32) (k * 32 + 32)
           else (H ^^ 256) (slice y (k * 32) (k * 32 + 32)))"
      proof cases
        case 1
        then show ?thesis using IH step k blk [OF k] by simp
      next
        case 2
        then show ?thesis using IH step k blk [OF k] by simp
      next
        case 3
        then show ?thesis using IH step k blk [OF k] by simp
      qed
    qed
  qed
qed

section \<open>Key generation, signing and verification agree\<close>

lemma length_checksummedMessageHash: "length (checksummedMessageHash H m) = 34"
  by (simp add: checksummedMessageHash_def Let_def length_copy_slice)

lemma prng_Read_stream:
  "fst (prng_Read ks p b) = map (\<lambda>k. ks (prng_seed p) (prng_run p) (prng_pos p + k)) [0..<length b]"
  by (simp add: prng_Read_def copy_bytes_full)

lemma GenerateKey_seeds_stream: "GenerateKey_seeds ks sk = map (ks sk 0) [0..<1088]"
  by (simp add: GenerateKey_seeds_def prng_Read_stream chacha20prng_New_def)

lemma Sign_seeds_stream:
  "Sign_seeds ks sk (checksummedMessageHash H m) = map (ks sk 0) [0..<1088]"
  by (simp add: Sign_seeds_def prng_Read_stream chacha20prng_New_def
      length_checksummedMessageHash)

lemma Sign_blocks:
  assumes "hash_ok H"
  shows "length (Sign H ks sk m) = 1088"
    and "i < 34 \<Longrightarrow> slice (Sign H ks sk m) (i * 32) (i * 32 + 32) =
         (H ^^ unat (checksummedMessageHash H m ! i))
           (slice (map (ks sk 0) [0..<1088]) (i * 32) (i * 32 + 32))"
proof -
  let ?v = "checksummedMessageHash H m"
  let ?y = "map (ks sk 0) [0..<1088]"
  have S: "Sign H ks sk m = Sign_lists H 0 ?v ?y"
    by (simp add: Sign_def Let_def Sign_seeds_stream)
  have B: "length (Sign_lists H 0 ?v ?y) = 32 * 34 \<and>
         (\<forall>k<34. slice (Sign_lists H 0 ?v ?y) (k * 32) (k * 32 + 32) =
            (if k < 0 then slice ?y (k * 32) (k * 32 + 32)
             else (H ^^ unat (?v ! (k - 0))) (slice ?y (k * 32) (k * 32 + 32))))"
    using assms by (rule Sign_lists_blocks) (simp_all add: length_checksummedMessageHash)
  show "length (Sign H ks sk m) = 1088"
    using B S by simp
  show "slice (Sign H ks sk m) (i * 32) (i * 32 + 32) =
         (H ^^ unat (?v ! i)) (slice ?y (i * 32) (i * 32 + 32))" if "i < 34"
    using B S that by simp
qed

lemma Verify_blocks:
  assumes "hash_ok H" "length sig = 1088"
  shows "\<exists>y. length y = 1088 \<and> Verify H pk m sig = (pk = H y) \<and>
     (\<forall>i<34. slice y (i * 32) (i * 32 + 32) =
         (H ^^ (256 - unat (checksummedMessageHash H m ! i))) (slice sig (i * 32) (i * 32 + 32)))"
proof -
  let ?v = "checksummedMessageHash H m"
  let ?y = "Verify_lists H 0 ?v sig"
  have B: "length ?y = 32 * 34 \<and>
         (\<forall>k<34. slice ?y (k * 32) (k * 32 + 32) =
            (if k < 0 then slice sig (k * 32) (k * 32 + 32)
             else (H ^^ (256 - unat (?v ! (k - 0)))) (slice sig (k * 32) (k * 32 + 32))))"
    using assms(1) by (rule Verify_lists_blocks) (simp_all add: assms(2) length_checksummedMessageHash)
  have "Verify H pk m sig = (pk = H ?y)"
    by (simp add: Verify_def Let_def)
  with B show ?thesis
    by (intro exI [of _ ?y]) simp
qed

lemma GenerateKey_blocks:
  assumes "hash_ok H" "length y = 1088"
  shows "length (GenerateKey_lists H 0 y) = 1088"
    and "i < 34 \<Longrightarrow> slice (GenerateKey_lists H 0 y) (i * 32) (i * 32 + 32) =
           (H ^^ 256) (slice y (i * 32) (i * 32 + 32))"
proof -
  have B: "length (GenerateKey_lists H 0 y) = 32 * 34 \<and>
         (\<forall>k<34. slice (GenerateKey_lists H 0 y) (k * 32) (k * 32 + 32) =
            (if k < 0 then slice y (k * 32) (k * 32 + 32)
             else (H ^^ 256) (slice y (k * 32) (k * 32 + 32))))"
    using assms(1) by (rule GenerateKey_lists_blocks) (simp_all add: assms(2))
  show "length (GenerateKey_lists H 0 y) = 1088" using B by simp
  show "slice (GenerateKey_lists H 0 y) (i * 32) (i * 32 + 32) =
           (H ^^ 256) (slice y (i * 32) (i * 32 + 32))" if "i < 34"
    using B that by simp
qed

lemma GenerateKey_ok:
  assumes "gk_err (GenerateKey H ks rd r) = None"
  shows "\<exists>sk. length sk = 32 \<and> gk_sk (GenerateKey H ks rd r) = Some sk \<and>
     gk_pk (GenerateKey H ks rd r) =
       Some (copy_bytes zero32 (H (GenerateKey_lists H 0 (GenerateKey_seeds ks sk))))"
  using assms
  by (auto simp: GenerateKey_def Let_def zero32_def split: prod.splits if_splits)

lemma sign_then_verify_lists:
  assumes H: "hash_ok H"
  shows "Verify_lists H 0 (checksummedMessageHash H m) (Sign H ks sk m) =
         GenerateKey_lists H 0 (GenerateKey_seeds ks sk)"
proof (rule blocks_eqI [where n = 34])
  let ?v = "checksummedMessageHash H m"
  let ?seeds = "map (ks sk 0) [0..<1088]"
  let ?s = "Sign H ks sk m"
  let ?y = "Verify_lists H 0 ?v ?s"
  have B: "length ?y = 32 * 34 \<and>
         (\<forall>k<34. slice ?y (k * 32) (k * 32 + 32) =
            (if k < 0 then slice ?s (k * 32) (k * 32 + 32)
             else (H ^^ (256 - unat (?v ! (k - 0)))) (slice ?s (k * 32) (k * 32 + 32))))"
    using H by (rule Verify_lists_blocks)
      (simp_all add: Sign_blocks(1) [OF H] length_checksummedMessageHash)
  show "length ?y = 32 * 34" using B by simp
  show "length (GenerateKey_lists H 0 (GenerateKey_seeds ks sk)) = 32 * 34"
    using GenerateKey_blocks(1) [OF H, of "GenerateKey_seeds ks sk"]
    by (simp add: GenerateKey_seeds_stream)
  fix k :: nat assume k: "k < 34"
  have "unat (?v ! k) < 256"
    using unsigned_less [of "?v ! k"] by simp
  then have cnt: "256 - unat (?v ! k) + unat (?v ! k) = 256"
    by simp
  have "slice ?y (k * 32) (k * 32 + 32) =
      (H ^^ (256 - unat (?v ! k))) ((H ^^ unat (?v ! k)) (slice ?seeds (k * 32) (k * 32 + 32)))"
    using B k Sign_blocks(2) [OF H k, of ks sk m] by simp
  also have "\<dots> = (H ^^ 256) (slice ?seeds (k * 32) (k * 32 + 32))"
    using cnt by (simp flip: funpow_add [THEN fun_cong, unfolded o_def])
  also have "\<dots> = slice (GenerateKey_lists H 0 (GenerateKey_seeds ks sk)) (k * 32) (k * 32 + 32)"
    using GenerateKey_blocks(2) [OF H _ k, of "GenerateKey_seeds ks sk"]
    by (simp add: GenerateKey_seeds_stream)
  finally show "slice ?y (k * 32) (k * 32 + 32) =
      slice (GenerateKey_lists H 0 (GenerateKey_seeds ks sk)) (k * 32) (k * 32 + 32)" .
qed

lemma hash_ok_sample_hash: "hash_ok sample_hash"
  by (simp add: hash_ok_def sample_hash_def min_def)

lemma test_keys_generated:
  "gk_err test_keys = None"
  "gk_pk test_keys = Some (the (gk_pk test_keys))"
  "gk_sk test_keys = Some (the (gk_sk test_keys))"
  by (simp_all add: test_keys_def GenerateKey_def prng_reader_def Let_def split_def)

text \<open>
  Claim C1. Whenever GenerateKey returns a key pair \<open>(pk, sk)\<close> without an error, the
  secret key has 32 bytes and, for every message (the empty one included),
  \<open>Verify pk message (Sign sk message)\<close> is true. The hash may be any function into 32
  bytes, the key stream and the entropy source are arbitrary.
\<close>

theorem Verify_Sign:
  assumes "hash_ok H"
    and "gk_err (GenerateKey H ks rd r) = None"
    and "gk_pk (GenerateKey H ks rd r) = Some pk"
    and "gk_sk (GenerateKey H ks rd r) = Some sk"
  shows "length sk = 32 \<and> Verify H pk message (Sign H ks sk message)"
proof -
  from GenerateKey_ok [OF assms(2)] assms(3,4)
  have sk: "length sk = 32"
    and pk: "pk = copy_bytes zero32 (H (GenerateKey_lists H 0 (GenerateKey_seeds ks sk)))"
    by auto
  have "length (H (GenerateKey_lists H 0 (GenerateKey_seeds ks sk))) = length zero32"
    using assms(1) by (simp add: hash_ok_def zero32_def)
  then have "pk = H (GenerateKey_lists H 0 (GenerateKey_seeds ks sk))"
    using pk by (simp add: copy_bytes_full)
  then have "Verify H pk message (Sign H ks sk message)"
    by (simp add: Verify_def Let_def sign_then_verify_lists [OF assms(1)])
  with sk show ?thesis by simp
qed


theorem Verify_Sign_witness:
  "hash_ok sample_hash \<and> gk_err test_keys = None \<and>
   Verify sample_hash (the (gk_pk test_keys)) test_message
     (Sign sample_hash sample_keystream (the (gk_sk test_keys)) test_message)"
  using Verify_Sign [OF hash_ok_sample_hash test_keys_generated [unfolded test_keys_def],
      folded test_keys_def, of test_message]
    hash_ok_sample_hash test_keys_generated(1)
  by simp


section \<open>The checksum\<close>

lemma term16: "unat (255 - ucast (b :: byte) :: 16 word) = 255 - unat b"
proof -
  have b: "unat b < 256"
    using unsigned_less [of b] by simp
  have "unat b < 2 ^ 16"
    using b by simp
  then have u: "unat (ucast b :: 16 word) = unat b"
    by (simp add: unsigned_ucast_eq take_bit_nat_eq_self)
  have "(ucast b :: 16 word) \<le> 255"
    using b u by (simp add: word_le_nat_alt)
  then have "unat (255 - ucast b :: 16 word) = unat (255 :: 16 word) - unat (ucast b :: 16 word)"
    by (rule unat_sub)
  with u show ?thesis by simp
qed

lemma sum_terms_le: "(\<Sum>b\<leftarrow>bs. 255 - unat (b :: byte)) \<le> 255 * length bs"
  by (induction bs) auto

lemma cksum_loop_exact:
  "unat c + 255 * length bs < 65536 \<Longrightarrow>
   unat (cksum_loop bs c) = unat c + (\<Sum>b\<leftarrow>bs. 255 - unat b)"
proof (induction bs arbitrary: c)
  case Nil
  then show ?case by simp
next
  case (Cons b bs)
  have "unat c + (255 - unat b) < 65536"
    using Cons.prems by simp
  then have step: "unat (c + (255 - ucast b)) = unat c + (255 - unat b)"
    by (simp add: unat_word_ariths term16)
  then have "unat (c + (255 - ucast b)) + 255 * length bs < 65536"
    using Cons.prems by simp
  from Cons.IH [OF this] step show ?case
    by simp
qed

lemma nth_checksummedMessageHash:
  assumes "hash_ok H"
  shows "take 32 (checksummedMessageHash H m) = H m"
    and "drop 32 (checksummedMessageHash H m) = PutUint16 (cksum_loop (H m) 0)"
proof -
  have len: "length (H m) = 32"
    using assms by (simp add: hash_ok_def)
  have 1: "copy_slice (replicate 34 0) 0 32 (H m) = H m @ [0, 0]"
    using len by (simp add: copy_slice_full) (simp add: numeral_eq_Suc)
  have 2: "copy_slice (H m @ [0, 0]) 32 34 (PutUint16 (cksum_loop (H m) 0)) =
           H m @ PutUint16 (cksum_loop (H m) 0)"
    using len by (simp add: copy_slice_full PutUint16_def)
  have "checksummedMessageHash H m = H m @ PutUint16 (cksum_loop (H m) 0)"
    by (simp add: checksummedMessageHash_def Let_def 1 2)
  then show "take 32 (checksummedMessageHash H m) = H m"
    and "drop 32 (checksummedMessageHash H m) = PutUint16 (cksum_loop (H m) 0)"
    using len by simp_all
qed

lemma PutUint16_little_endian:
  "unat (PutUint16 v ! 0) = unat v mod 256" "unat (PutUint16 v ! 1) = unat v div 256"
proof -
  have "unat v < 2 ^ 16"
    using unsigned_less [of v] by simp
  then have "unat v div 256 < 256"
    by simp
  then show "unat (PutUint16 v ! 1) = unat v div 256"
    by (simp add: PutUint16_def unsigned_ucast_eq take_bit_eq_mod drop_bit_eq_div unat_div)
  show "unat (PutUint16 v ! 0) = unat v mod 256"
    by (simp add: PutUint16_def unsigned_ucast_eq take_bit_eq_mod)
qed

text \<open>
  Claim C5. For every message (the empty one included) the result has 34 bytes; its
  first 32 bytes are the digest \<open>H m\<close>; bytes 32 and 33 are the low and the high byte
  (little-endian) of the sum of \<open>255 - digest[k]\<close> over \<open>k = 0..31\<close>, taken as a
  16-bit unsigned number.
\<close>

theorem checksummedMessageHash_layout:
  assumes "hash_ok H"
  shows "length (checksummedMessageHash H m) = 34 \<and>
    take 32 (checksummedMessageHash H m) = H m \<and>
    unat (checksummedMessageHash H m ! 32) =
      ((\<Sum>k = 0..<32. 255 - unat (H m ! k)) mod 2 ^ 16) mod 256 \<and>
    unat (checksummedMessageHash H m ! 33) =
      ((\<Sum>k = 0..<32. 255 - unat (H m ! k)) mod 2 ^ 16) div 256"
proof -
  let ?v = "checksummedMessageHash H m"
  let ?c = "cksum_loop (H m) 0"
  have len: "length (H m) = 32"
    using assms by (simp add: hash_ok_def)
  have "(\<Sum>b\<leftarrow>H m. 255 - unat b) \<le> 255 * 32"
    using sum_terms_le [of "H m"] len by simp
  then have small: "(\<Sum>b\<leftarrow>H m. 255 - unat b) < 2 ^ 16"
    by simp
  have "unat ?c = (\<Sum>b\<leftarrow>H m. 255 - unat b)"
    using cksum_loop_exact [of 0 "H m"] len by simp
  also have "\<dots> = (\<Sum>k = 0..<32. 255 - unat (H m ! k))"
    using len by (simp add: sum_list_sum_nth)
  finally have c: "unat ?c = (\<Sum>k = 0..<32. 255 - unat (H m ! k))" .
  have "unat ?c < 2 ^ 16"
    using unsigned_less [of ?c] by simp
  with c have c16: "unat ?c = (\<Sum>k = 0..<32. 255 - unat (H m ! k)) mod 2 ^ 16"
    by simp
  have tk: "take 32 ?v = H m" and dr: "drop 32 ?v = PutUint16 ?c"
    using nth_checksummedMessageHash [OF assms] by simp_all
  have "?v ! 32 = drop 32 ?v ! 0" "?v ! 33 = drop 32 ?v ! 1"
    by (simp_all add: length_checksummedMessageHash)
  then have "unat (?v ! 32) = unat ?c mod 256" "unat (?v ! 33) = unat ?c div 256"
    using dr PutUint16_little_endian [of ?c] by simp_all
  then show ?thesis
    using tk c16 by (simp add: length_checksummedMessageHash)
qed

theorem checksummedMessageHash_layout_witness:
  "hash_ok sample_hash \<and> length (checksummedMessageHash sample_hash []) = 34 \<and>
   take 32 (checksummedMessageHash sample_hash []) = sample_hash []"
  using checksummedMessageHash_layout [OF hash_ok_sample_hash, of "[]"] hash_ok_sample_hash
  by simp

text \<open>
  Claim C6. The checksum that checksummedMessageHash stores is the exact sum of the 32
  terms \<open>255 - digest[k]\<close>: it is at most 8160, and at every step of the loop the
  16-bit subtraction and addition agree with the unbounded ones (the running sum plus
  the next term stays at most 8160, below \<open>2 ^ 16\<close>).
\<close>

theorem cksum_no_overflow:
  assumes "hash_ok H"
  shows "drop 32 (checksummedMessageHash H m) = PutUint16 (cksum_loop (H m) 0) \<and>
    unat (cksum_loop (H m) 0) = (\<Sum>b\<leftarrow>H m. 255 - unat b) \<and>
    unat (cksum_loop (H m) 0) \<le> 8160 \<and>
    (\<forall>n<32.
       unat (255 - ucast (H m ! n) :: 16 word) = 255 - unat (H m ! n) \<and>
       unat (cksum_loop (take n (H m)) 0) = (\<Sum>b\<leftarrow>take n (H m). 255 - unat b) \<and>
       unat (cksum_loop (take n (H m)) 0) + unat (255 - ucast (H m ! n) :: 16 word) \<le> 8160 \<and>
       cksum_loop (take (n + 1) (H m)) 0 =
         cksum_loop (take n (H m)) 0 + (255 - ucast (H m ! n)))"
proof -
  let ?d = "H m"
  have len: "length ?d = 32"
    using assms by (simp add: hash_ok_def)
  have exact: "unat (cksum_loop (take n ?d) 0) = (\<Sum>b\<leftarrow>take n ?d. 255 - unat b)" for n
    using cksum_loop_exact [of 0 "take n ?d"] len by (simp add: min_def)
  have bound: "(\<Sum>b\<leftarrow>take n ?d. 255 - unat b) \<le> 8160" for n
    using sum_terms_le [of "take n ?d"] len by (simp add: min_def split: if_splits)
  have app: "cksum_loop (xs @ [b]) c = cksum_loop xs c + (255 - ucast b)" for xs b c
    by (induction xs arbitrary: c) simp_all
  have step: "unat (255 - ucast (?d ! n) :: 16 word) = 255 - unat (?d ! n) \<and>
       unat (cksum_loop (take n ?d) 0) = (\<Sum>b\<leftarrow>take n ?d. 255 - unat b) \<and>
       unat (cksum_loop (take n ?d) 0) + unat (255 - ucast (?d ! n) :: 16 word) \<le> 8160 \<and>
       cksum_loop (take (n + 1) ?d) 0 = cksum_loop (take n ?d) 0 + (255 - ucast (?d ! n))"
    if n: "n < 32" for n
  proof -
    have tk: "take (n + 1) ?d = take n ?d @ [?d ! n]"
      using n len by (simp add: take_Suc_conv_app_nth)
    have "unat (cksum_loop (take n ?d) 0) + unat (255 - ucast (?d ! n) :: 16 word) =
          (\<Sum>b\<leftarrow>take (n + 1) ?d. 255 - unat b)"
      by (simp only: tk exact term16) simp
    then show ?thesis
      using bound [of "n + 1"] exact [of n] by (simp only: tk app term16)
  qed
  have total: "unat (cksum_loop ?d 0) = (\<Sum>b\<leftarrow>?d. 255 - unat b)"
    using exact [of 32] len by simp
  have "(\<Sum>b\<leftarrow>?d. 255 - unat b) \<le> 8160"
    using bound [of 32] len by simp
  with total have le: "unat (cksum_loop ?d 0) \<le> 8160"
    by simp
  note nth_checksummedMessageHash(2) [OF assms, of m] total le
  moreover have "\<forall>n<32.
       unat (255 - ucast (?d ! n) :: 16 word) = 255 - unat (?d ! n) \<and>
       unat (cksum_loop (take n ?d) 0) = (\<Sum>b\<leftarrow>take n ?d. 255 - unat b) \<and>
       unat (cksum_loop (take n ?d) 0) + unat (255 - ucast (?d ! n) :: 16 word) \<le> 8160 \<and>
       cksum_loop (take (n + 1) ?d) 0 = cksum_loop (take n ?d) 0 + (255 - ucast (?d ! n))"
    using step by blast
  ultimately show ?thesis
    by blast
qed

theorem cksum_no_overflow_witness:
  "hash_ok sample_hash \<and> unat (cksum_loop (sample_hash []) 0) \<le> 8160 \<and>
   cksum_loop (take (0 + 1) (sample_hash [])) 0 =
     cksum_loop (take 0 (sample_hash [])) 0 + (255 - ucast (sample_hash [] ! 0))"
proof -
  note w = cksum_no_overflow [OF hash_ok_sample_hash, of "[]"]
  have "(0::nat) < 32"
    by simp
  with w have "cksum_loop (take (0 + 1) (sample_hash [])) 0 =
      cksum_loop (take 0 (sample_hash [])) 0 + (255 - ucast (sample_hash [] ! 0))"
    by blast
  with w hash_ok_sample_hash show ?thesis
    by blast
qed

section \<open>The signature and the seeds\<close>

text \<open>
  Claim C4. The signature has 1088 bytes, and for each \<open>i\<close> in \<open>0..33\<close> its \<open>i\<close>-th
  32-byte element is the hash applied exactly \<open>vector[i]\<close> times to the \<open>i\<close>-th 32-byte
  element of the seed expansion of the secret key, where \<open>vector\<close> is the checksummed
  message hash.
\<close>

theorem Sign_elements:
  assumes "hash_ok H"
  shows "length (Sign H ks sk message) = 1088 \<and>
    (\<forall>i<34. slice (Sign H ks sk message) (i * 32) (i * 32 + 32) =
       (H ^^ unat (checksummedMessageHash H message ! i))
         (slice (Sign_seeds ks sk (checksummedMessageHash H message)) (i * 32) (i * 32 + 32)))"
  using Sign_blocks [OF assms, where ks = ks and sk = sk and m = message]
  by (simp add: Sign_seeds_stream)

theorem Sign_elements_witness:
  "hash_ok sample_hash \<and> length (Sign sample_hash sample_keystream zero32 test_message) = 1088 \<and>
   slice (Sign sample_hash sample_keystream zero32 test_message) (0 * 32) (0 * 32 + 32) =
     (sample_hash ^^ unat (checksummedMessageHash sample_hash test_message ! 0))
       (slice (Sign_seeds sample_keystream zero32 (checksummedMessageHash sample_hash test_message))
          (0 * 32) (0 * 32 + 32))"
  using Sign_elements [OF hash_ok_sample_hash, of sample_keystream zero32 test_message,
      THEN conjunct1]
    Sign_elements [OF hash_ok_sample_hash, of sample_keystream zero32 test_message,
      THEN conjunct2, rule_format, of 0]
    hash_ok_sample_hash
  by simp

text \<open>
  Claim C8. The seed material that GenerateKey derives and the seed material that Sign
  derives are the same 1088 bytes: each is the first 1088 bytes of the key stream of a
  reader newly made from the secret key with the constant 0, whatever the message.
\<close>

theorem seeds_agree:
  "GenerateKey_seeds ks sk = Sign_seeds ks sk (checksummedMessageHash H message) \<and>
   length (GenerateKey_seeds ks sk) = 1088 \<and>
   GenerateKey_seeds ks sk = map (ks sk 0) [0..<1088]"
  by (simp add: GenerateKey_seeds_stream Sign_seeds_stream)

section \<open>The length of the chains\<close>

lemma GenerateKey_public_key:
  assumes "hash_ok H" "gk_err (GenerateKey H ks rd r) = None"
    and "gk_sk (GenerateKey H ks rd r) = Some sk"
  shows "gk_pk (GenerateKey H ks rd r) = Some (H (GenerateKey_lists H 0 (GenerateKey_seeds ks sk)))"
    and "length (GenerateKey_lists H 0 (GenerateKey_seeds ks sk)) = 1088"
    and "i < 34 \<Longrightarrow>
         slice (GenerateKey_lists H 0 (GenerateKey_seeds ks sk)) (i * 32) (i * 32 + 32) =
         (H ^^ 256) (slice (GenerateKey_seeds ks sk) (i * 32) (i * 32 + 32))"
proof -
  let ?y = "GenerateKey_lists H 0 (GenerateKey_seeds ks sk)"
  have len: "length (GenerateKey_seeds ks sk) = 1088"
    by (simp add: GenerateKey_seeds_stream)
  from GenerateKey_ok [OF assms(2)] assms(3)
  have "gk_pk (GenerateKey H ks rd r) = Some (copy_bytes zero32 (H ?y))"
    by auto
  moreover have "length (H ?y) = length zero32"
    using assms(1) by (simp add: hash_ok_def zero32_def)
  ultimately show "gk_pk (GenerateKey H ks rd r) = Some (H ?y)"
    by (simp add: copy_bytes_full)
  show "length ?y = 1088"
    using assms(1) len by (rule GenerateKey_blocks(1))
  show "slice ?y (i * 32) (i * 32 + 32) =
      (H ^^ 256) (slice (GenerateKey_seeds ks sk) (i * 32) (i * 32 + 32))" if "i < 34"
    using assms(1) len that by (rule GenerateKey_blocks(2))
qed

lemma sample_hash_funpow:
  "length x = 32 \<Longrightarrow> (sample_hash ^^ k) x = map (\<lambda>b. b + of_nat k) x"
proof (induction k)
  case 0
  then show ?case by (simp add: map_idI)
next
  case (Suc k)
  then show ?case
    by (simp add: sample_hash_def add.assoc)
qed

lemma sample_hash_prefix:
  "length x = 32 \<Longrightarrow> sample_hash (x @ rest) = map (\<lambda>b. b + 1) x"
  by (simp add: sample_hash_def)

lemma sample_hash_first_block:
  assumes "length y = 1088"
  shows "sample_hash y = map (\<lambda>b. b + 1) (slice y (0 * 32) (0 * 32 + 32))"
proof -
  have "y = take 32 y @ drop 32 y"
    by simp
  then have "sample_hash y = sample_hash (take 32 y @ drop 32 y)"
    by simp
  also have "\<dots> = map (\<lambda>b. b + 1) (take 32 y)"
    using assms by (intro sample_hash_prefix) simp
  finally show ?thesis
    by (simp add: slice_def)
qed

lemma sample_public_keys:
  assumes "length seeds = 1088"
  shows "sample_hash (GenerateKey_lists sample_hash 0 seeds) = map (\<lambda>b. b + 1) (take 32 seeds)"
    and "PublicKey_spec sample_hash seeds = take 32 seeds"
proof -
  let ?c = "slice seeds (0 * 32) (0 * 32 + 32)"
  have c: "length ?c = 32" "?c = take 32 seeds"
    using assms by (simp_all add: slice_def)
  have "sample_hash (GenerateKey_lists sample_hash 0 seeds) =
        map (\<lambda>b. b + 1) (slice (GenerateKey_lists sample_hash 0 seeds) (0 * 32) (0 * 32 + 32))"
    using GenerateKey_blocks(1) [OF hash_ok_sample_hash assms] by (rule sample_hash_first_block)
  also have "\<dots> = map (\<lambda>b. b + 1) ((sample_hash ^^ 256) ?c)"
    using GenerateKey_blocks(2) [OF hash_ok_sample_hash assms, of 0] by simp
  also have "\<dots> = map (\<lambda>b. b + 1) ?c"
    using c(1) by (simp add: sample_hash_funpow map_idI)
  finally show "sample_hash (GenerateKey_lists sample_hash 0 seeds) =
      map (\<lambda>b. b + 1) (take 32 seeds)"
    using c(2) by simp
  let ?f = "\<lambda>i. (sample_hash ^^ 255) (slice seeds (i * 32) (i * 32 + 32))"
  have top: "?f 0 = map (\<lambda>b. b + 255) ?c"
    using c(1) by (simp add: sample_hash_funpow)
  have "[0..<34] = 0 # [Suc 0..<34]"
    by (rule upt_conv_Cons) simp
  then have "PublicKey_spec sample_hash seeds = sample_hash (?f 0 @ concat (map ?f [Suc 0..<34]))"
    by (simp add: PublicKey_spec_def)
  also have "\<dots> = map (\<lambda>b. b + 1) (?f 0)"
    using c(1) top by (intro sample_hash_prefix) simp
  also have "\<dots> = ?c"
    using top by (simp add: map_idI)
  finally show "PublicKey_spec sample_hash seeds = take 32 seeds"
    using c(2) by simp
qed

lemma sample_public_keys_differ:
  assumes "length seeds = 1088"
  shows "sample_hash (GenerateKey_lists sample_hash 0 seeds) \<noteq> PublicKey_spec sample_hash seeds"
proof
  assume "sample_hash (GenerateKey_lists sample_hash 0 seeds) = PublicKey_spec sample_hash seeds"
  then have "map (\<lambda>b. b + 1) (take 32 seeds) = take 32 seeds"
    using sample_public_keys [OF assms] by simp
  then have "map (\<lambda>b. b + 1) (take 32 seeds) ! 0 = take 32 seeds ! 0"
    by simp
  then have "seeds ! 0 + 1 = seeds ! 0"
    using assms by simp
  then show False
    by simp
qed

lemma test_keys_public_key:
  "gk_pk test_keys =
     Some (sample_hash (GenerateKey_lists sample_hash 0
       (GenerateKey_seeds sample_keystream (the (gk_sk test_keys)))))"
  using GenerateKey_public_key(1) [OF hash_ok_sample_hash
      test_keys_generated(1,3) [unfolded test_keys_def], folded test_keys_def] .

lemma Verify_spec_Sign:
  assumes H: "hash_ok H"
  shows "Verify_spec H (PublicKey_spec H (GenerateKey_seeds ks sk)) m (Sign H ks sk m)"
proof -
  let ?v = "checksummedMessageHash H m"
  let ?seeds = "GenerateKey_seeds ks sk"
  have "(H ^^ (255 - unat (?v ! i))) (slice (Sign H ks sk m) (i * 32) (i * 32 + 32)) =
        (H ^^ 255) (slice ?seeds (i * 32) (i * 32 + 32))" if "i < 34" for i
  proof -
    have "unat (?v ! i) < 256"
      using unsigned_less [of "?v ! i"] by simp
    then have "255 - unat (?v ! i) + unat (?v ! i) = 255"
      by simp
    then have "(H ^^ (255 - unat (?v ! i))) ((H ^^ unat (?v ! i)) x) = (H ^^ 255) x" for x
      by (simp flip: funpow_add [THEN fun_cong, unfolded o_def])
    then show ?thesis
      using Sign_blocks(2) [OF H that, of ks sk m] by (simp add: GenerateKey_seeds_stream)
  qed
  then have eq: "map (\<lambda>i. (H ^^ (255 - unat (?v ! i))) (slice (Sign H ks sk m) (i * 32) (i * 32 + 32)))
               [0..<34] =
             map (\<lambda>i. (H ^^ 255) (slice ?seeds (i * 32) (i * 32 + 32))) [0..<34]"
    by (intro map_cong) simp_all
  show ?thesis
    by (simp only: Verify_spec_def PublicKey_spec_def Let_def eq)
qed

text \<open>
  Claim C2. The claim and the comments in the source say that each of the 34 seeds is
  hashed 255 times. The loop of GenerateKey runs for \<open>i = 0, \<dots>, 255\<close> and applies the
  hash 256 times, for every hash function. With the stand-in hash and the key pair of
  the test file, the public key returned is not the hash of the 34 seeds each hashed
  255 times.
\<close>

theorem GenerateKey_hashes_256_times:
  "GenerateKey_hashes H 0 h = (H ^^ 256) h \<and>
   gk_err test_keys = None \<and>
   gk_pk test_keys \<noteq>
     Some (PublicKey_spec sample_hash (GenerateKey_seeds sample_keystream (the (gk_sk test_keys))))"
proof -
  have "length (GenerateKey_seeds sample_keystream (the (gk_sk test_keys))) = 1088"
    by (simp add: GenerateKey_seeds_stream)
  then have "gk_pk test_keys \<noteq>
     Some (PublicKey_spec sample_hash (GenerateKey_seeds sample_keystream (the (gk_sk test_keys))))"
    using sample_public_keys_differ by (simp add: test_keys_public_key)
  then show ?thesis
    by (simp add: GenerateKey_hashes_funpow test_keys_generated(1))
qed

text \<open>
  Claim C3. The claim says that Verify hashes element \<open>i\<close> of the signature
  \<open>255 - vector[i]\<close> times. The loop of Verify runs for \<open>j = 255 - b, \<dots>, 0\<close> and applies
  the hash \<open>256 - b\<close> times, for every hash function. With the stand-in hash, the
  signature of the test message under the all-zero secret key and the public key that
  the documentation describes (each seed hashed 255 times) pass the verification the
  claim describes, and Verify rejects them.
\<close>

theorem Verify_hashes_256_minus_b:
  "Verify_hashes H (255 - uint (b :: byte)) h = (H ^^ (256 - unat b)) h \<and>
   Verify_spec sample_hash (PublicKey_spec sample_hash (GenerateKey_seeds sample_keystream zero32))
     test_message (Sign sample_hash sample_keystream zero32 test_message) \<and>
   \<not> Verify sample_hash (PublicKey_spec sample_hash (GenerateKey_seeds sample_keystream zero32))
     test_message (Sign sample_hash sample_keystream zero32 test_message)"
proof -
  have "unat b < 256"
    using unsigned_less [of b] by simp
  then have "nat (255 - uint b + 1) = 256 - unat b"
    by (simp add: nat_diff_distrib' flip: nat_int)
  then have count: "Verify_hashes H (255 - uint b) h = (H ^^ (256 - unat b)) h"
    by (simp add: Verify_hashes_funpow)
  have "length (GenerateKey_seeds sample_keystream zero32) = 1088"
    by (simp add: GenerateKey_seeds_stream)
  then have "PublicKey_spec sample_hash (GenerateKey_seeds sample_keystream zero32) \<noteq>
      sample_hash (GenerateKey_lists sample_hash 0 (GenerateKey_seeds sample_keystream zero32))"
    using sample_public_keys_differ by fastforce
  then have "\<not> Verify sample_hash (PublicKey_spec sample_hash (GenerateKey_seeds sample_keystream zero32))
     test_message (Sign sample_hash sample_keystream zero32 test_message)"
    by (simp add: Verify_def Let_def sign_then_verify_lists [OF hash_ok_sample_hash])
  with count Verify_spec_Sign [OF hash_ok_sample_hash, of sample_keystream zero32 test_message]
  show ?thesis
    by simp
qed

section \<open>The entropy source\<close>

text \<open>
  Claim C7, as the code has it. GenerateKey calls Read once, on the 32 bytes of the
  secret key: the reader is left in the state that this one call leaves it in. The
  error GenerateKey returns is the error of that call, unchanged; the count the call
  returns is not looked at. The public key is nil exactly when that error is not nil,
  and the secret key is always returned.
\<close>

theorem GenerateKey_error:
  "(case rd r 32 of (data, n, err, r') \<Rightarrow>
      gk_err (GenerateKey H ks rd r) = err \<and>
      gk_rand (GenerateKey H ks rd r) = r' \<and>
      gk_sk (GenerateKey H ks rd r) = Some (copy_bytes zero32 data) \<and>
      (gk_pk (GenerateKey H ks rd r) = None) = (err \<noteq> None))"
  by (simp add: GenerateKey_def Let_def zero32_def split: prod.splits)

text \<open>The benchmark's \<^verbatim>\<open>nopReader\<close> writes nothing and reports no error: the key pair
  is that of the all-zero secret key.\<close>

lemma GenerateKey_nopReader:
  "gk_err (GenerateKey H ks nopReader ()) = None"
  "gk_sk (GenerateKey H ks nopReader ()) = Some zero32"
  by (simp_all add: GenerateKey_def nopReader_def Let_def copy_bytes_def)

text \<open>
  Claim C7 as stated fails for a source that holds five bytes: it cannot supply 32
  bytes, its one Read returns the count 5 and no error, and GenerateKey returns no
  error, a secret key made of the five bytes and 27 zero bytes, and a public key.
\<close>

theorem GenerateKey_short_read:
  "\<not> (gk_err (GenerateKey sample_hash sample_keystream bytes_reader [1, 2, 3, 4, 5]) \<noteq> None
       \<longleftrightarrow> fst (snd (bytes_reader [1, 2, 3, 4, 5] 32)) < 32) \<and>
   fst (snd (bytes_reader [1, 2, 3, 4, 5] 32)) = 5 \<and>
   gk_err (GenerateKey sample_hash sample_keystream bytes_reader [1, 2, 3, 4, 5]) = None \<and>
   gk_sk (GenerateKey sample_hash sample_keystream bytes_reader [1, 2, 3, 4, 5]) =
     Some ([1, 2, 3, 4, 5] @ replicate 27 0) \<and>
   gk_pk (GenerateKey sample_hash sample_keystream bytes_reader [1, 2, 3, 4, 5]) \<noteq> None \<and>
   gk_rand (GenerateKey sample_hash sample_keystream bytes_reader [1, 2, 3, 4, 5]) = []"
  by (simp add: GenerateKey_def bytes_reader_def Let_def zero32_def copy_bytes_def)

section \<open>What Sign and Verify write\<close>

lemma Sign_lists_mem_array:
  "y < length s \<Longrightarrow> Sign_lists_mem H y i bs s = s[y := Sign_lists H i bs (s ! y)]"
proof (induction bs arbitrary: i s)
  case Nil
  then show ?case by simp
next
  case (Cons b bs)
  let ?s1 = "sl_copy s \<lparr>sl_obj = y, sl_lo = i * 32, sl_hi = i * 32 + 32\<rparr>
      (Sign_hashes H b 0 (copy_bytes zero32 (slice (s ! y) (i * 32) (i * 32 + 32))))"
  have len: "y < length ?s1"
    using Cons.prems by (simp add: sl_copy_def)
  show ?case
    using Cons.prems Cons.IH [OF len, of "i + 1"]
    by (simp add: Let_def sl_load_def) (simp add: sl_copy_def)
qed

lemma Verify_lists_mem_array:
  "y < length s \<Longrightarrow> Verify_lists_mem H y i bs s = s[y := Verify_lists H i bs (s ! y)]"
proof (induction bs arbitrary: i s)
  case Nil
  then show ?case by simp
next
  case (Cons b bs)
  let ?s1 = "sl_copy s \<lparr>sl_obj = y, sl_lo = i * 32, sl_hi = i * 32 + 32\<rparr>
      (Verify_hashes H (255 - uint b) (copy_bytes zero32 (slice (s ! y) (i * 32) (i * 32 + 32))))"
  have len: "y < length ?s1"
    using Cons.prems by (simp add: sl_copy_def)
  show ?case
    using Cons.prems Cons.IH [OF len, of "i + 1"]
    by (simp add: Let_def sl_load_def) (simp add: sl_copy_def)
qed

lemma Sign_mem_heap:
  "\<exists>y. Sign_mem H ks sk message s = (length s, s @ [y])"
  by (simp add: Sign_mem_def Let_def new_array_def Sign_lists_mem_array sl_copy_def)

lemma Verify_mem_heap:
  "\<exists>y. snd (Verify_mem H pk message sig s) = s @ [y]"
  by (simp add: Verify_mem_def Let_def new_array_def Verify_lists_mem_array)

lemma Sign_mem_Sign:
  assumes "sk < length s"
  shows "Sign_mem H ks sk message s = (length s, s @ [Sign H ks (s ! sk) (sl_load s message)])"
proof -
  let ?v = "checksummedMessageHash H (sl_load s message)"
  let ?z = "replicate (length ?v * 32) (0 :: byte)"
  let ?seeds = "Sign_seeds ks (s ! sk) ?v"
  have seeds: "length ?seeds = length ?z"
    by (simp add: Sign_seeds_def prng_Read_stream)
  have "copy_slice ?z 0 (length ?z) (fst (prng_Read ks (chacha20prng_New (s ! sk) 0) (slice ?z 0 (length ?z)))) = ?seeds"
    using seeds by (simp add: copy_slice_full Sign_seeds_def slice_def)
  then show ?thesis
    using assms
    by (simp add: Sign_mem_def Let_def new_array_def sl_copy_def sl_load_def nth_append
        Sign_lists_mem_array Sign_def)
qed

lemma Verify_mem_Verify:
  assumes "pk < length s" "sig < length s"
  shows "Verify_mem H pk message sig s =
    (Verify H (s ! pk) (sl_load s message) (s ! sig),
     s @ [Verify_lists H 0 (checksummedMessageHash H (sl_load s message)) (s ! sig)])"
  using assms
  by (simp add: Verify_mem_def Let_def new_array_def nth_append Verify_lists_mem_array Verify_def)

text \<open>
  Claim C10. Let the secret key, the public key and the signature be arrays of the
  store and the message a slice of an array of the store. After Sign the secret key and
  the bytes of the message are what they were; after Verify the public key, the bytes of
  the message and the signature are what they were. Each call leaves every array of the
  store as it was and adds one array, its local \<open>y\<close>: the signature that Sign returns,
  and the copy of the signature that the chain walk of Verify overwrites. The results
  are those of the functions \<open>Sign\<close> and \<open>Verify\<close> on the bytes read from the store.
\<close>

theorem Sign_Verify_frame:
  assumes "sk < length s" "pk < length s" "sig < length s" "sl_obj message < length s"
  shows "snd (Sign_mem H ks sk message s) ! sk = s ! sk \<and>
    sl_load (snd (Sign_mem H ks sk message s)) message = sl_load s message \<and>
    snd (Verify_mem H pk message sig s) ! pk = s ! pk \<and>
    sl_load (snd (Verify_mem H pk message sig s)) message = sl_load s message \<and>
    snd (Verify_mem H pk message sig s) ! sig = s ! sig \<and>
    take (length s) (snd (Sign_mem H ks sk message s)) = s \<and>
    take (length s) (snd (Verify_mem H pk message sig s)) = s \<and>
    length (snd (Verify_mem H pk message sig s)) = length s + 1 \<and>
    Sign_mem H ks sk message s = (length s, s @ [Sign H ks (s ! sk) (sl_load s message)]) \<and>
    fst (Verify_mem H pk message sig s) = Verify H (s ! pk) (sl_load s message) (s ! sig)"
proof -
  have S: "Sign_mem H ks sk message s = (length s, s @ [Sign H ks (s ! sk) (sl_load s message)])"
    using assms(1) by (rule Sign_mem_Sign)
  have V: "Verify_mem H pk message sig s =
    (Verify H (s ! pk) (sl_load s message) (s ! sig),
     s @ [Verify_lists H 0 (checksummedMessageHash H (sl_load s message)) (s ! sig)])"
    using assms(2,3) by (rule Verify_mem_Verify)
  show ?thesis
    using assms by (simp add: S V nth_append sl_load_def)
qed

theorem Sign_Verify_frame_witness:
  "snd (Sign_mem sample_hash sample_keystream 0 \<lparr>sl_obj = 1, sl_lo = 0, sl_hi = 7\<rparr>
          [zero32, test_message, zero32, replicate 1088 0]) ! 0 = zero32 \<and>
   snd (Verify_mem sample_hash 2 \<lparr>sl_obj = 1, sl_lo = 0, sl_hi = 7\<rparr> 3
          [zero32, test_message, zero32, replicate 1088 0]) ! 3 = replicate 1088 0"
  using Sign_Verify_frame [of 0 "[zero32, test_message, zero32, replicate 1088 0]" 2 3
      "\<lparr>sl_obj = 1, sl_lo = 0, sl_hi = 7\<rparr>" sample_hash sample_keystream]
  by simp

end
